theory Spec2Isabelle
  imports Complex_Main
begin

section \<open>Data model\<close>

text \<open>
  A value read out of the schema-less \<open>meta\<close> payload, after the client has parsed the
  row's JSON. \<open>JUndefined\<close> is what a property read yields when the key is absent (or
  when \<open>meta\<close> itself is null, through \<open>?.\<close>). A number is represented by its value;
  the aggregation only tests it against zero and compares it for equality. A nested
  object or array is represented by its reference: it is always truthy, and a JavaScript
  \<open>Map\<close> compares such keys by identity.
\<close>

datatype jsval =
    JUndefined
  | JNull
  | JBool bool
  | JNum rat
  | JStr string
  | JRef nat

text \<open>JavaScript truthiness, as tested by \<open>if (v)\<close> and by \<open>v || d\<close>.\<close>

fun truthy :: "jsval \<Rightarrow> bool" where
  "truthy JUndefined = False"
| "truthy JNull = False"
| "truthy (JBool b) = b"
| "truthy (JNum n) = (n \<noteq> 0)"
| "truthy (JStr s) = (s \<noteq> [])"
| "truthy (JRef r) = True"

text \<open>
  The interface \<open>AnalyticsEvent\<close>. The field \<open>id\<close> is named \<open>event_id\<close> here. A
  \<open>meta\<close> that is not null is read by key; one that is not an object (a string, a
  number, an array) has none of the keys read here, as the empty object has.
\<close>

record AnalyticsEvent =
  event_id :: string
  user_id :: "string option"
  device_id :: "string option"
  event_type :: string
  path :: "string option"
  meta :: "(string \<rightharpoonup> jsval) option"
  timestamp :: string

text \<open>
  The interface \<open>AnalyticsStats\<close>. An entry \<open>{ path, count }\<close> (or \<open>{ code, count }\<close>,
  \<open>{ brand, count }\<close>, \<open>{ userId, count }\<close>, \<open>{ hour, count }\<close>) is the pair of its key
  and its count. The keys taken from \<open>meta\<close> are whatever values the payload held.
  A count is a natural number: the counts of a fetched collection stay far below the
  range in which a JavaScript number is no longer exact.
\<close>

record AnalyticsStats =
  totalPageViews :: nat
  totalSearches :: nat
  pageViews :: "(string \<times> nat) list"
  topSearchedCodes :: "(jsval \<times> nat) list"
  topBrands :: "(jsval \<times> nat) list"
  topUsers :: "(string \<times> nat) list"
  errorCodeFrequency :: "(jsval \<times> nat) list"
  activityByHour :: "(string \<times> nat) list"

text \<open>
  What the host gives the computation: the local hour of a timestamp
  (\<open>new Date(ts).getHours()\<close>, in the time zone of the computing process; \<open>None\<close> is the
  \<open>NaN\<close> of an invalid date), and the collation weight of a character, by which
  \<open>localeCompare\<close> orders strings.
\<close>

record host =
  getHours :: "string \<Rightarrow> nat option"
  weight :: "char \<Rightarrow> nat"

section \<open>The JavaScript library operations the aggregation uses\<close>

text \<open>
  A \<open>Map\<close> is the list of its entries in insertion order: \<open>set\<close> on a key that is
  present replaces the value where the entry stands, \<open>set\<close> on a new key appends.
\<close>

fun map_get :: "('k \<times> 'v) list \<Rightarrow> 'k \<Rightarrow> 'v option" where
  "map_get [] k = None"
| "map_get ((k', v') # m) k = (if k' = k then Some v' else map_get m k)"

fun map_set :: "('k \<times> 'v) list \<Rightarrow> 'k \<Rightarrow> 'v \<Rightarrow> ('k \<times> 'v) list" where
  "map_set [] k v = [(k, v)]"
| "map_set ((k', v') # m) k v =
     (if k' = k then (k', v) # m else (k', v') # map_set m k v)"

text \<open>The statement \<open>m.set(k, (m.get(k) || 0) + 1)\<close>.\<close>

definition bump :: "('k \<times> nat) list \<Rightarrow> 'k \<Rightarrow> ('k \<times> nat) list" where
  "bump m k = map_set m k ((case map_get m k of None \<Rightarrow> 0 | Some c \<Rightarrow> c) + 1)"

text \<open>
  \<open>Array.prototype.sort\<close> with a comparator is a stable sort: \<open>a\<close> stays before \<open>b\<close>
  unless the comparator puts \<open>b\<close> first. Insertion from the right is one such sort.
\<close>

fun insert_by :: "('a \<Rightarrow> 'a \<Rightarrow> int) \<Rightarrow> 'a \<Rightarrow> 'a list \<Rightarrow> 'a list" where
  "insert_by cmp x [] = [x]"
| "insert_by cmp x (y # ys) =
     (if cmp x y \<le> 0 then x # y # ys else y # insert_by cmp x ys)"

fun array_sort :: "('a \<Rightarrow> 'a \<Rightarrow> int) \<Rightarrow> 'a list \<Rightarrow> 'a list" where
  "array_sort cmp [] = []"
| "array_sort cmp (x # xs) = insert_by cmp x (array_sort cmp xs)"

text \<open>The comparator \<open>(a, b) => b.count - a.count\<close>.\<close>

definition by_count_desc :: "('k \<times> nat) \<Rightarrow> ('k \<times> nat) \<Rightarrow> int" where
  "by_count_desc a b = int (snd b) - int (snd a)"

text \<open>
  \<open>a.localeCompare(b)\<close>: the strings are compared character by character in the order
  of the host's collation weights; a proper prefix comes first.
\<close>

fun localeCompare :: "(char \<Rightarrow> nat) \<Rightarrow> string \<Rightarrow> string \<Rightarrow> int" where
  "localeCompare w [] [] = 0"
| "localeCompare w [] (y # ys) = - 1"
| "localeCompare w (x # xs) [] = 1"
| "localeCompare w (x # xs) (y # ys) =
     (if w x < w y then - 1 else if w y < w x then 1 else localeCompare w xs ys)"

text \<open>The comparator \<open>(a, b) => a.hour.localeCompare(b.hour)\<close>.\<close>

definition by_hour :: "(char \<Rightarrow> nat) \<Rightarrow> (string \<times> nat) \<Rightarrow> (string \<times> nat) \<Rightarrow> int" where
  "by_hour w a b = localeCompare w (fst a) (fst b)"

text \<open>A number in a template literal: its decimal digits, with no padding.\<close>

definition digit_char :: "nat \<Rightarrow> char" where
  "digit_char d = char_of (48 + d)"

fun string_of_nat :: "nat \<Rightarrow> string" where
  "string_of_nat n =
     (if n < 10 then [digit_char n] else string_of_nat (n div 10) @ [digit_char (n mod 10)])"

text \<open>The template \<open>`${date.getHours()}:00`\<close>.\<close>

definition hour_label :: "host \<Rightarrow> string \<Rightarrow> string" where
  "hour_label h ts =
     (case getHours h ts of None \<Rightarrow> ''NaN'' | Some n \<Rightarrow> string_of_nat n) @ '':00''"

text \<open>The read \<open>e.meta?.key\<close>.\<close>

definition meta_get :: "AnalyticsEvent \<Rightarrow> string \<Rightarrow> jsval" where
  "meta_get e key =
     (case meta e of
        None \<Rightarrow> JUndefined
      | Some obj \<Rightarrow> (case obj key of None \<Rightarrow> JUndefined | Some v \<Rightarrow> v))"

section \<open>The aggregation\<close>

text \<open>The six \<open>forEach\<close> loops, each filling its own \<open>Map\<close> from the empty one.\<close>

definition pageViewMap :: "AnalyticsEvent list \<Rightarrow> (string \<times> nat) list" where
  "pageViewMap events =
     foldl (\<lambda>m e. case path e of
                     Some p \<Rightarrow> if p \<noteq> [] then bump m p else m
                   | None \<Rightarrow> m) [] events"

definition searchMap :: "AnalyticsEvent list \<Rightarrow> (jsval \<times> nat) list" where
  "searchMap events =
     foldl (\<lambda>m e. if event_type e = ''search'' \<and> truthy (meta_get e ''code'')
                   then bump m (meta_get e ''code'') else m) [] events"

definition brandMap :: "AnalyticsEvent list \<Rightarrow> (jsval \<times> nat) list" where
  "brandMap events =
     foldl (\<lambda>m e. if truthy (meta_get e ''brand'')
                   then bump m (meta_get e ''brand'') else m) [] events"

definition userMap :: "AnalyticsEvent list \<Rightarrow> (string \<times> nat) list" where
  "userMap events =
     foldl (\<lambda>m e. case user_id e of
                     Some u \<Rightarrow> if u \<noteq> [] then bump m u else m
                   | None \<Rightarrow> m) [] events"

definition errorMap :: "AnalyticsEvent list \<Rightarrow> (jsval \<times> nat) list" where
  "errorMap events =
     foldl (\<lambda>m e. if truthy (meta_get e ''errorCode'')
                   then bump m (meta_get e ''errorCode'') else m) [] events"

definition hourMap :: "host \<Rightarrow> AnalyticsEvent list \<Rightarrow> (string \<times> nat) list" where
  "hourMap h events = foldl (\<lambda>m e. bump m (hour_label h (timestamp e))) [] events"

text \<open>
  The body of \<open>getAnalyticsStats\<close> once the events are fetched: each map is turned
  into its entries, sorted, and cut by \<open>slice(0, n)\<close>; the totals are read last.
\<close>

definition computeStats :: "host \<Rightarrow> AnalyticsEvent list \<Rightarrow> AnalyticsStats" where
  "computeStats h events =
     (let pageViews' = take 10 (array_sort by_count_desc (pageViewMap events));
          topSearchedCodes' = take 10 (array_sort by_count_desc (searchMap events));
          topBrands' = take 10 (array_sort by_count_desc (brandMap events));
          topUsers' = take 10 (array_sort by_count_desc (userMap events));
          errorCodeFrequency' = take 15 (array_sort by_count_desc (errorMap events));
          activityByHour' = array_sort (by_hour (weight h)) (hourMap h events)
      in \<lparr> totalPageViews = length events,
           totalSearches = foldl (\<lambda>sum c. sum + snd c) 0 topSearchedCodes',
           pageViews = pageViews',
           topSearchedCodes = topSearchedCodes',
           topBrands = topBrands',
           topUsers = topUsers',
           errorCodeFrequency = errorCodeFrequency',
           activityByHour = activityByHour' \<rparr>)"

section \<open>The query and the fetch\<close>

text \<open>The optional argument of \<open>getAnalyticsStats\<close>.\<close>

record filters =
  startDate :: "string option"
  endDate :: "string option"
  eventType :: "string option"

text \<open>
  The query sent to the store: the table, the selected columns, the ordering (column,
  ascending) and the comparisons added by \<open>gte\<close> and \<open>lte\<close>, in the order added.
\<close>

datatype clause = Gte string string | Lte string string

record query =
  q_from :: string
  q_select :: string
  q_order :: "string \<times> bool"
  q_where :: "clause list"

text \<open>
  What awaiting the query gives: the promise rejects, or it resolves to the pair
  \<open>{ data, error }\<close>, each of which may be null.
\<close>

datatype failure = Failure string

datatype outcome =
    Rejected failure
  | Resolved "AnalyticsEvent list option" "failure option"

definition build_query :: "filters option \<Rightarrow> query" where
  "build_query fs =
     (let q0 = \<lparr> q_from = ''app_analytics'', q_select = ''*'',
                 q_order = (''timestamp'', False), q_where = [] \<rparr>;
          q1 = (case fs of
                  None \<Rightarrow> q0
                | Some f \<Rightarrow>
                    (case startDate f of
                       Some s \<Rightarrow> if s \<noteq> [] then q0\<lparr> q_where := q_where q0 @ [Gte ''timestamp'' s] \<rparr> else q0
                     | None \<Rightarrow> q0));
          q2 = (case fs of
                  None \<Rightarrow> q1
                | Some f \<Rightarrow>
                    (case endDate f of
                       Some s \<Rightarrow> if s \<noteq> [] then q1\<lparr> q_where := q_where q1 @ [Lte ''timestamp'' s] \<rparr> else q1
                     | None \<Rightarrow> q1))
      in q2)"

text \<open>The result returned from the \<open>catch\<close> block.\<close>

definition zeroStats :: AnalyticsStats where
  "zeroStats =
     \<lparr> totalPageViews = 0, totalSearches = 0, pageViews = [], topSearchedCodes = [],
       topBrands = [], topUsers = [], errorCodeFrequency = [], activityByHour = [] \<rparr>"

text \<open>
  \<open>getAnalyticsStats\<close>, with the store as the function that answers a query. A
  rejection and a non-null \<open>error\<close> both reach the \<open>catch\<close> block, which logs the
  failure and returns the zeroed result; a null \<open>data\<close> is the empty array. The
  filter \<open>eventType\<close> is declared and read nowhere.
\<close>

definition getAnalyticsStats ::
  "host \<Rightarrow> (query \<Rightarrow> outcome) \<Rightarrow> filters option \<Rightarrow> AnalyticsStats" where
  "getAnalyticsStats h store fs =
     (case store (build_query fs) of
        Rejected err \<Rightarrow> zeroStats
      | Resolved dat (Some err) \<Rightarrow> zeroStats
      | Resolved dat None \<Rightarrow>
          computeStats h (case dat of None \<Rightarrow> [] | Some rows \<Rightarrow> rows))"

text \<open>\<open>getAnalyticsForDateRange\<close> passes the two dates and no event type.\<close>

definition getAnalyticsForDateRange ::
  "host \<Rightarrow> (query \<Rightarrow> outcome) \<Rightarrow> string \<Rightarrow> string \<Rightarrow> AnalyticsStats" where
  "getAnalyticsForDateRange h store s e =
     getAnalyticsStats h store
       (Some \<lparr> startDate = Some s, endDate = Some e, eventType = None \<rparr>)"

section \<open>Notions used to state the properties\<close>

text \<open>
  Every loop has the same shape: an event either contributes one key to the grouping
  or is skipped. \<open>tally_by sel\<close> is that loop for the selection \<open>sel\<close>.
\<close>

definition tally_by :: "('e \<Rightarrow> 'k option) \<Rightarrow> 'e list \<Rightarrow> ('k \<times> nat) list" where
  "tally_by sel es = foldl (\<lambda>m e. case sel e of Some k \<Rightarrow> bump m k | None \<Rightarrow> m) [] es"

text \<open>The key, if any, that an event contributes to each grouping.\<close>

definition path_key :: "AnalyticsEvent \<Rightarrow> string option" where
  "path_key e = (case path e of Some p \<Rightarrow> if p \<noteq> [] then Some p else None | None \<Rightarrow> None)"

definition code_key :: "AnalyticsEvent \<Rightarrow> jsval option" where
  "code_key e =
     (if event_type e = ''search'' \<and> truthy (meta_get e ''code'')
      then Some (meta_get e ''code'') else None)"

definition brand_key :: "AnalyticsEvent \<Rightarrow> jsval option" where
  "brand_key e = (if truthy (meta_get e ''brand'') then Some (meta_get e ''brand'') else None)"

definition user_key :: "AnalyticsEvent \<Rightarrow> string option" where
  "user_key e = (case user_id e of Some u \<Rightarrow> if u \<noteq> [] then Some u else None | None \<Rightarrow> None)"

definition error_key :: "AnalyticsEvent \<Rightarrow> jsval option" where
  "error_key e =
     (if truthy (meta_get e ''errorCode'') then Some (meta_get e ''errorCode'') else None)"

definition hour_key :: "host \<Rightarrow> AnalyticsEvent \<Rightarrow> string option" where
  "hour_key h e = Some (hour_label h (timestamp e))"

text \<open>How many events of the input contribute the key \<open>k\<close>.\<close>

definition occurrences :: "('e \<Rightarrow> 'k option) \<Rightarrow> 'k \<Rightarrow> 'e list \<Rightarrow> nat" where
  "occurrences sel k es = length (filter (\<lambda>e. sel e = Some k) es)"

text \<open>
  The position, in delivery order, of the first event that contributes the key \<open>k\<close>:
  where \<open>k\<close> is discovered.
\<close>

definition first_pos :: "('e \<Rightarrow> 'k option) \<Rightarrow> 'e list \<Rightarrow> 'k \<Rightarrow> nat" where
  "first_pos sel es k = length (takeWhile (\<lambda>e. sel e \<noteq> Some k) es)"

text \<open>
  The order of a ranking by count: a larger count comes first, and of two entries with
  the same count the one whose key has the smaller position comes first.
\<close>

definition ranks_before :: "('k \<Rightarrow> nat) \<Rightarrow> ('k \<times> nat) \<Rightarrow> ('k \<times> nat) \<Rightarrow> bool" where
  "ranks_before pos a b \<longleftrightarrow> snd b < snd a \<or> (snd a = snd b \<and> pos (fst a) < pos (fst b))"

text \<open>What the claims say of the counts of a list.\<close>

definition positive_counts :: "('k \<times> nat) list \<Rightarrow> bool" where
  "positive_counts xs = list_all (\<lambda>x. 0 < snd x) xs"

definition nonincreasing_counts :: "('k \<times> nat) list \<Rightarrow> bool" where
  "nonincreasing_counts xs = sorted_wrt (\<lambda>a b. snd b \<le> snd a) xs"

text \<open>The order of \<open>localeCompare\<close> on the keys of two entries.\<close>

definition label_le :: "host \<Rightarrow> (string \<times> nat) \<Rightarrow> (string \<times> nat) \<Rightarrow> bool" where
  "label_le h a b = lexordp_eq (map (weight h) (fst a)) (map (weight h) (fst b))"

text \<open>What the claims say of the keys of a list: none is falsy.\<close>

definition truthy_keys :: "(jsval \<times> nat) list \<Rightarrow> bool" where
  "truthy_keys xs = list_all (\<lambda>x. truthy (fst x)) xs"

definition nonempty_keys :: "(string \<times> nat) list \<Rightarrow> bool" where
  "nonempty_keys xs = list_all (\<lambda>x. fst x \<noteq> []) xs"

text \<open>
  The event as it would be if each selecting field that is present but falsy were
  absent: an empty \<open>path\<close> or \<open>user_id\<close> becomes null, and a falsy \<open>code\<close>,
  \<open>brand\<close> or \<open>errorCode\<close> is taken out of \<open>meta\<close>.
\<close>

definition drop_falsy :: "string \<Rightarrow> (string \<rightharpoonup> jsval) \<Rightarrow> (string \<rightharpoonup> jsval)" where
  "drop_falsy key obj =
     (case obj key of
        Some v \<Rightarrow> if truthy v then obj else obj(key := None)
      | None \<Rightarrow> obj)"

definition without_falsy :: "AnalyticsEvent \<Rightarrow> AnalyticsEvent" where
  "without_falsy e =
     e\<lparr> path := (if path e = Some [] then None else path e),
        user_id := (if user_id e = Some [] then None else user_id e),
        meta := map_option
                  (\<lambda>obj. drop_falsy ''code'' (drop_falsy ''brand'' (drop_falsy ''errorCode'' obj)))
                  (meta e) \<rparr>"

section \<open>Hosts, events and stores for the examples\<close>

text \<open>
  A host whose process runs in UTC and reads timestamps as \<open>toISOString\<close> writes them
  (the hour is the two digits after the \<open>T\<close>), and whose collation orders characters by
  their code.
\<close>

definition digit_val :: "char \<Rightarrow> nat option" where
  "digit_val c =
     (let n = of_char c in if 48 \<le> n \<and> n \<le> (57::nat) then Some (n - 48) else None)"

definition iso_utc_hour :: "string \<Rightarrow> nat option" where
  "iso_utc_hour ts =
     (case drop 11 ts of
        a # b # rest \<Rightarrow>
          (case (digit_val a, digit_val b) of
             (Some x, Some y) \<Rightarrow> Some (10 * x + y)
           | _ \<Rightarrow> None)
      | _ \<Rightarrow> None)"

definition utc_host :: host where
  "utc_host = \<lparr> getHours = iso_utc_hour, weight = of_char \<rparr>"

definition page_view_event :: "string \<Rightarrow> string \<Rightarrow> AnalyticsEvent" where
  "page_view_event p ts =
     \<lparr> event_id = ''pv'', user_id = None, device_id = None, event_type = ''page_view'',
       path = Some p, meta = None, timestamp = ts \<rparr>"

definition search_event :: "jsval \<Rightarrow> AnalyticsEvent" where
  "search_event c =
     \<lparr> event_id = ''s'', user_id = None, device_id = None, event_type = ''search'',
       path = None, meta = Some [''code'' \<mapsto> c], timestamp = ''2024-05-01T12:00:00.000Z'' \<rparr>"

text \<open>Eleven searches, each for a code of its own, and one page view.\<close>

definition eleven_codes :: "jsval list" where
  "eleven_codes =
     map JStr [''E1'', ''E2'', ''E3'', ''E4'', ''E5'', ''E6'', ''E7'', ''E8'', ''E9'', ''E10'',
               ''E11'']"

definition twelve_events :: "AnalyticsEvent list" where
  "twelve_events =
     map search_event eleven_codes @ [page_view_event ''/home'' ''2024-05-01T13:00:00.000Z'']"

text \<open>Three views of one path, at the local hours 9, 10 and 2 in that order.\<close>

definition three_hours :: "AnalyticsEvent list" where
  "three_hours =
     [page_view_event ''/x'' ''2024-05-01T09:10:00.000Z'',
      page_view_event ''/x'' ''2024-05-01T10:10:00.000Z'',
      page_view_event ''/x'' ''2024-05-01T02:10:00.000Z'']"

text \<open>One view at the local hour 10, then two at the local hour 9.\<close>

definition busy_nine :: "AnalyticsEvent list" where
  "busy_nine =
     [page_view_event ''/x'' ''2024-05-01T10:10:00.000Z'',
      page_view_event ''/x'' ''2024-05-01T09:10:00.000Z'',
      page_view_event ''/y'' ''2024-05-01T09:20:00.000Z'']"

text \<open>A filter that asks for search events only, with no bound on the dates.\<close>

definition search_only :: filters where
  "search_only = \<lparr> startDate = None, endDate = None, eventType = Some ''search'' \<rparr>"

text \<open>An event of a signed-in user, and an event with no user.\<close>

definition user_event :: "string \<Rightarrow> AnalyticsEvent" where
  "user_event u =
     \<lparr> event_id = ''u'', user_id = Some u, device_id = None, event_type = ''click'',
       path = None, meta = None, timestamp = ''2024-05-01T08:00:00.000Z'' \<rparr>"

definition anonymous_event :: AnalyticsEvent where
  "anonymous_event =
     \<lparr> event_id = ''a'', user_id = None, device_id = None, event_type = ''click'',
       path = None, meta = None, timestamp = ''2024-05-01T08:00:00.000Z'' \<rparr>"

text \<open>A hundred events with no user, then five of one user and five of another.\<close>

definition crowd :: "AnalyticsEvent list" where
  "crowd =
     replicate 100 anonymous_event @ replicate 5 (user_event ''u1'')
     @ replicate 5 (user_event ''u2'')"

text \<open>
  Events whose selecting fields are present but falsy: an empty path and an empty user,
  and the codes \<open>""\<close>, \<open>0\<close> and \<open>false\<close>.
\<close>

definition falsy_event :: "jsval \<Rightarrow> AnalyticsEvent" where
  "falsy_event v =
     \<lparr> event_id = ''f'', user_id = Some [], device_id = None, event_type = ''search'',
       path = Some [],
       meta = Some [''code'' \<mapsto> v, ''brand'' \<mapsto> v, ''errorCode'' \<mapsto> v],
       timestamp = ''2024-05-01T08:00:00.000Z'' \<rparr>"

definition falsy_events :: "AnalyticsEvent list" where
  "falsy_events = [falsy_event (JStr []), falsy_event (JNum 0), falsy_event (JBool False)]"

text \<open>A store that answers the query with the given rows and no error.\<close>

definition store_of :: "AnalyticsEvent list \<Rightarrow> query \<Rightarrow> outcome" where
  "store_of rows q = Resolved (Some rows) None"

text \<open>A store that cannot be reached: the answer carries an error and no data.\<close>

definition failing_store :: "query \<Rightarrow> outcome" where
  "failing_store q = Resolved None (Some (Failure ''FetchError''))"

section \<open>Maps, groupings and sorting\<close>

lemma map_get_set: "map_get (map_set m k v) k' = (if k' = k then Some v else map_get m k')"
  by (induction m) auto

lemma keys_map_set:
  "map fst (map_set m k v) = (if k \<in> fst ` set m then map fst m else map fst m @ [k])"
  by (induction m) force+

lemma map_get_mem: "distinct (map fst m) \<Longrightarrow> (k, c) \<in> set m \<Longrightarrow> map_get m k = Some c"
  by (induction m) (auto simp: rev_image_eqI)

lemma keys_bump:
  "map fst (bump m k) = (if k \<in> fst ` set m then map fst m else map fst m @ [k])"
  by (simp add: bump_def keys_map_set)

lemma map_get_bump:
  "map_get (bump m k) k' =
     (if k' = k then Some ((case map_get m k of None \<Rightarrow> 0 | Some c \<Rightarrow> c) + 1)
      else map_get m k')"
  by (simp add: bump_def map_get_set)

subsection \<open>What a grouping holds\<close>

lemma tally_by_Nil: "tally_by sel [] = []"
  by (simp add: tally_by_def)

lemma tally_by_snoc:
  "tally_by sel (es @ [e]) =
     (case sel e of Some k \<Rightarrow> bump (tally_by sel es) k | None \<Rightarrow> tally_by sel es)"
  by (cases "sel e") (simp_all add: tally_by_def)

lemma keys_tally_by: "fst ` set (tally_by sel es) = {k. \<exists>e \<in> set es. sel e = Some k}"
proof (induction es rule: rev_induct)
  case Nil
  show ?case by (simp add: tally_by_Nil)
next
  case (snoc e es)
  have "set (map fst (tally_by sel (es @ [e]))) = {k. \<exists>x \<in> set (es @ [e]). sel x = Some k}"
  proof (cases "sel e")
    case None
    with snoc show ?thesis by (auto simp: tally_by_snoc)
  next
    case (Some k)
    with snoc show ?thesis by (auto simp: tally_by_snoc keys_bump)
  qed
  then show ?case by simp
qed

lemma distinct_tally_by: "distinct (map fst (tally_by sel es))"
proof (induction es rule: rev_induct)
  case Nil
  show ?case by (simp add: tally_by_Nil)
next
  case (snoc e es)
  then show ?case
    by (cases "sel e") (auto simp: tally_by_snoc keys_bump)
qed

lemma map_get_tally_by:
  "map_get (tally_by sel es) k =
     (if occurrences sel k es = 0 then None else Some (occurrences sel k es))"
proof (induction es rule: rev_induct)
  case Nil
  show ?case by (simp add: tally_by_Nil occurrences_def)
next
  case (snoc e es)
  show ?case
  proof (cases "sel e")
    case None
    with snoc show ?thesis by (simp add: tally_by_snoc occurrences_def)
  next
    case (Some k')
    with snoc show ?thesis by (auto simp: tally_by_snoc map_get_bump occurrences_def)
  qed
qed

lemma tally_by_entry:
  assumes "(k, c) \<in> set (tally_by sel es)"
  shows "c = occurrences sel k es" and "0 < c"
proof -
  have "map_get (tally_by sel es) k = Some c"
    using assms distinct_tally_by by (rule map_get_mem[rotated])
  then show "c = occurrences sel k es" and "0 < c"
    by (auto simp: map_get_tally_by split: if_splits)
qed

lemma length_tally_by:
  "length (tally_by sel es) = card {k. \<exists>e \<in> set es. sel e = Some k}"
proof -
  have "length (tally_by sel es) = length (map fst (tally_by sel es))" by simp
  also have "\<dots> = card (set (map fst (tally_by sel es)))"
    by (rule distinct_card[symmetric]) (rule distinct_tally_by)
  finally show ?thesis by (simp add: keys_tally_by)
qed

subsection \<open>Keys stand in the order of their discovery\<close>

lemma first_pos_snoc_old:
  "\<exists>x \<in> set es. sel x = Some k \<Longrightarrow> first_pos sel (es @ [e]) k = first_pos sel es k"
  by (auto simp: first_pos_def takeWhile_append1)

lemma first_pos_lt: "\<exists>x \<in> set es. sel x = Some k \<Longrightarrow> first_pos sel es k < length es"
  by (induction es) (auto simp: first_pos_def)

lemma first_pos_snoc_new:
  "\<not> (\<exists>x \<in> set es. sel x = Some k) \<Longrightarrow> length es \<le> first_pos sel (es @ [e]) k"
  by (auto simp: first_pos_def takeWhile_append2)

lemma tally_by_order:
  "sorted_wrt (\<lambda>a b. first_pos sel es a < first_pos sel es b) (map fst (tally_by sel es))"
proof (induction es rule: rev_induct)
  case Nil
  show ?case by (simp add: tally_by_Nil)
next
  case (snoc e es)
  let ?m = "tally_by sel es"
  have old: "first_pos sel (es @ [e]) k = first_pos sel es k" if "k \<in> set (map fst ?m)" for k
    using that keys_tally_by[of sel es] by (simp add: first_pos_snoc_old)
  have keep: "sorted_wrt (\<lambda>a b. first_pos sel (es @ [e]) a < first_pos sel (es @ [e]) b)
                (map fst ?m)"
    using snoc.IH
    by (rule sorted_wrt_mono_rel[rotated]) (simp add: old)
  show ?case
  proof (cases "sel e")
    case None
    with keep show ?thesis by (simp add: tally_by_snoc)
  next
    case (Some k)
    show ?thesis
    proof (cases "k \<in> fst ` set ?m")
      case True
      with keep Some show ?thesis by (simp add: tally_by_snoc keys_bump)
    next
      case False
      then have new: "length es \<le> first_pos sel (es @ [e]) k"
        by (intro first_pos_snoc_new) (simp add: keys_tally_by)
      have "first_pos sel (es @ [e]) x < first_pos sel (es @ [e]) k"
        if "x \<in> set (map fst ?m)" for x
      proof -
        have "\<exists>y \<in> set es. sel y = Some x"
          using that keys_tally_by[of sel es] by auto
        then have "first_pos sel es x < length es" by (rule first_pos_lt)
        with old[OF that] new show ?thesis by simp
      qed
      with keep False Some show ?thesis
        by (simp add: tally_by_snoc keys_bump sorted_wrt_append)
    qed
  qed
qed

subsection \<open>The six loops are groupings\<close>

lemma pageViewMap_tally: "pageViewMap events = tally_by path_key events"
proof -
  have "(\<lambda>m e. case path e of Some p \<Rightarrow> if p \<noteq> [] then bump m p else m | None \<Rightarrow> m) =
        (\<lambda>m e. case path_key e of Some k \<Rightarrow> bump m k | None \<Rightarrow> m)"
    by (intro ext) (simp add: path_key_def split: option.splits)
  then show ?thesis by (simp add: pageViewMap_def tally_by_def)
qed

lemma searchMap_tally: "searchMap events = tally_by code_key events"
proof -
  have "(\<lambda>m e. if event_type e = ''search'' \<and> truthy (meta_get e ''code'')
                then bump m (meta_get e ''code'') else m) =
        (\<lambda>m e. case code_key e of Some k \<Rightarrow> bump m k | None \<Rightarrow> m)"
    by (intro ext) (simp add: code_key_def)
  then show ?thesis by (simp add: searchMap_def tally_by_def)
qed

lemma brandMap_tally: "brandMap events = tally_by brand_key events"
proof -
  have "(\<lambda>m e. if truthy (meta_get e ''brand'') then bump m (meta_get e ''brand'') else m) =
        (\<lambda>m e. case brand_key e of Some k \<Rightarrow> bump m k | None \<Rightarrow> m)"
    by (intro ext) (simp add: brand_key_def)
  then show ?thesis by (simp add: brandMap_def tally_by_def)
qed

lemma userMap_tally: "userMap events = tally_by user_key events"
proof -
  have "(\<lambda>m e. case user_id e of Some u \<Rightarrow> if u \<noteq> [] then bump m u else m | None \<Rightarrow> m) =
        (\<lambda>m e. case user_key e of Some k \<Rightarrow> bump m k | None \<Rightarrow> m)"
    by (intro ext) (simp add: user_key_def split: option.splits)
  then show ?thesis by (simp add: userMap_def tally_by_def)
qed

lemma errorMap_tally: "errorMap events = tally_by error_key events"
proof -
  have "(\<lambda>m e. if truthy (meta_get e ''errorCode'')
                then bump m (meta_get e ''errorCode'') else m) =
        (\<lambda>m e. case error_key e of Some k \<Rightarrow> bump m k | None \<Rightarrow> m)"
    by (intro ext) (simp add: error_key_def)
  then show ?thesis by (simp add: errorMap_def tally_by_def)
qed

lemma hourMap_tally: "hourMap h events = tally_by (hour_key h) events"
  by (simp add: hourMap_def tally_by_def hour_key_def)

subsection \<open>Sorting\<close>

lemma set_insert_by: "set (insert_by cmp x xs) = insert x (set xs)"
  by (induction xs) auto

lemma set_array_sort: "set (array_sort cmp xs) = set xs"
  by (induction xs) (simp_all add: set_insert_by)

lemma length_insert_by: "length (insert_by cmp x xs) = Suc (length xs)"
  by (induction xs) auto

lemma length_array_sort: "length (array_sort cmp xs) = length xs"
  by (induction xs) (simp_all add: length_insert_by)

lemma sorted_insert_by:
  assumes total: "\<And>a b. cmp a b \<le> 0 \<or> cmp b a \<le> 0"
    and trans: "\<And>a b c. cmp a b \<le> 0 \<Longrightarrow> cmp b c \<le> 0 \<Longrightarrow> cmp a c \<le> 0"
  shows "sorted_wrt (\<lambda>a b. cmp a b \<le> 0) ys \<Longrightarrow>
         sorted_wrt (\<lambda>a b. cmp a b \<le> 0) (insert_by cmp x ys)"
proof (induction ys)
  case Nil
  show ?case by simp
next
  case (Cons y ys)
  show ?case
  proof (cases "cmp x y \<le> 0")
    case True
    with Cons.prems show ?thesis by (auto intro: trans)
  next
    case False
    with total[of x y] have "cmp y x \<le> 0" by simp
    with False Cons show ?thesis by (auto simp: set_insert_by)
  qed
qed

lemma sorted_array_sort:
  assumes total: "\<And>a b. cmp a b \<le> 0 \<or> cmp b a \<le> 0"
    and trans: "\<And>a b c. cmp a b \<le> 0 \<Longrightarrow> cmp b c \<le> 0 \<Longrightarrow> cmp a c \<le> 0"
  shows "sorted_wrt (\<lambda>a b. cmp a b \<le> 0) (array_sort cmp xs)"
  by (induction xs) (simp_all add: sorted_insert_by[OF total trans])

lemma counts_array_sort:
  "sorted_wrt (\<lambda>a b. snd b \<le> snd a) (array_sort by_count_desc xs)"
proof -
  have "sorted_wrt (\<lambda>a b. by_count_desc a b \<le> 0) (array_sort by_count_desc xs)"
    by (rule sorted_array_sort) (auto simp: by_count_desc_def)
  then show ?thesis by (simp add: by_count_desc_def)
qed

lemma ranks_before_trans:
  "ranks_before pos a b \<Longrightarrow> ranks_before pos b c \<Longrightarrow> ranks_before pos a c"
  by (auto simp: ranks_before_def)

lemma stable_insert_by:
  assumes "sorted_wrt (ranks_before pos) ys" and "\<forall>y \<in> set ys. pos (fst x) < pos (fst y)"
  shows "sorted_wrt (ranks_before pos) (insert_by by_count_desc x ys)"
  using assms
proof (induction ys)
  case Nil
  show ?case by simp
next
  case (Cons y ys)
  show ?case
  proof (cases "by_count_desc x y \<le> 0")
    case True
    then have xy: "ranks_before pos x y"
      using Cons.prems(2) by (auto simp: ranks_before_def by_count_desc_def)
    have "ranks_before pos x z" if "z \<in> set ys" for z
      using that Cons.prems(1) xy by (auto intro: ranks_before_trans)
    with True xy Cons.prems(1) show ?thesis by auto
  next
    case False
    then have "ranks_before pos y x"
      by (auto simp: ranks_before_def by_count_desc_def)
    with False Cons show ?thesis by (auto simp: set_insert_by)
  qed
qed

lemma stable_array_sort:
  "sorted_wrt (\<lambda>a b. pos (fst a) < pos (fst b)) xs \<Longrightarrow>
   sorted_wrt (ranks_before pos) (array_sort by_count_desc xs)"
  by (induction xs) (auto simp: stable_insert_by set_array_sort)

lemma localeCompare_le:
  "localeCompare w a b \<le> 0 \<longleftrightarrow> lexordp_eq (map w a) (map w b)"
  by (induction w a b rule: localeCompare.induct) auto

lemma hours_array_sort:
  "sorted_wrt (\<lambda>a b. lexordp_eq (map w (fst a)) (map w (fst b))) (array_sort (by_hour w) xs)"
proof -
  have "sorted_wrt (\<lambda>a b. by_hour w a b \<le> 0) (array_sort (by_hour w) xs)"
  proof (rule sorted_array_sort)
    show "by_hour w a b \<le> 0 \<or> by_hour w b a \<le> 0" for a b
      using lexordp_eq_linear[of "map w (fst a)" "map w (fst b)"]
      by (simp add: by_hour_def localeCompare_le)
    show "by_hour w a b \<le> 0 \<Longrightarrow> by_hour w b c \<le> 0 \<Longrightarrow> by_hour w a c \<le> 0" for a b c
      unfolding by_hour_def localeCompare_le by (rule lexordp_eq_trans)
  qed
  then show ?thesis by (simp add: by_hour_def localeCompare_le)
qed

subsection \<open>The fields of the result\<close>

lemma computeStats_fields:
  "totalPageViews (computeStats h events) = length events"
  "totalSearches (computeStats h events) =
     foldl (\<lambda>sum c. sum + snd c) 0 (take 10 (array_sort by_count_desc (searchMap events)))"
  "pageViews (computeStats h events) = take 10 (array_sort by_count_desc (pageViewMap events))"
  "topSearchedCodes (computeStats h events) =
     take 10 (array_sort by_count_desc (searchMap events))"
  "topBrands (computeStats h events) = take 10 (array_sort by_count_desc (brandMap events))"
  "topUsers (computeStats h events) = take 10 (array_sort by_count_desc (userMap events))"
  "errorCodeFrequency (computeStats h events) =
     take 15 (array_sort by_count_desc (errorMap events))"
  "activityByHour (computeStats h events) =
     array_sort (by_hour (weight h)) (hourMap h events)"
  by (simp_all add: computeStats_def Let_def)

lemma computeStats_Nil: "computeStats h [] = zeroStats"
  by (simp add: computeStats_def zeroStats_def pageViewMap_def searchMap_def brandMap_def
      userMap_def errorMap_def hourMap_def)

subsection \<open>Sums of counts\<close>

lemma foldl_counts:
  "foldl (\<lambda>sum c. sum + snd c) (a::nat) xs = a + sum_list (map snd xs)"
  by (induction xs arbitrary: a) simp_all

lemma distinct_map_filter_le1:
  "distinct (map f xs) \<Longrightarrow> length (filter (\<lambda>x. f x = k) xs) \<le> 1"
proof (induction xs)
  case Nil
  show ?case by simp
next
  case (Cons x xs)
  show ?case
  proof (cases "f x = k")
    case True
    from Cons.prems have "f x \<notin> f ` set xs" by simp
    then have "\<forall>y \<in> set xs. f y \<noteq> f x" by (metis image_eqI)
    with True have "filter (\<lambda>y. f y = k) xs = []"
      by (simp add: filter_empty_conv)
    with True show ?thesis by simp
  next
    case False
    with Cons show ?thesis by simp
  qed
qed

lemma sum_list_all_ones:
  "\<forall>x \<in> set xs. snd x = (1::nat) \<Longrightarrow> sum_list (map snd xs) = length xs"
  by (induction xs) simp_all

subsection \<open>Hour labels\<close>

lemma hour_label_digits:
  assumes "getHours h ts = Some n" and "n < 100"
  shows "hour_label h ts =
     (if n < 10 then [digit_char n] else [digit_char (n div 10), digit_char (n mod 10)]) @ '':00''"
proof (cases "n < 10")
  case True
  with assms show ?thesis by (simp add: hour_label_def)
next
  case False
  with assms have "n div 10 < 10" by simp
  with False assms show ?thesis
    by (simp add: hour_label_def string_of_nat.simps[of n] string_of_nat.simps[of "n div 10"])
qed

lemma keys_activityByHour:
  "fst ` set (activityByHour (computeStats h events)) =
     (\<lambda>e. hour_label h (timestamp e)) ` set events"
proof -
  have "fst ` set (tally_by (hour_key h) events) = (\<lambda>e. hour_label h (timestamp e)) ` set events"
    unfolding keys_tally_by by (auto simp: hour_key_def)
  then show ?thesis
    by (simp add: computeStats_fields set_array_sort hourMap_tally)
qed

lemma digit_chars:
  "digit_char 0 = CHR ''0''" "digit_char (Suc 0) = CHR ''1''" "digit_char 2 = CHR ''2''"
  "digit_char 9 = CHR ''9''"
  by code_simp+

lemma hours_9_10_2:
  assumes hours: "map (\<lambda>e. getHours h (timestamp e)) events = [Some 9, Some 10, Some 2]"
    and w12: "weight h CHR ''1'' < weight h CHR ''2''"
    and w29: "weight h CHR ''2'' < weight h CHR ''9''"
  shows "activityByHour (computeStats h events) = [(''10:00'', 1), (''2:00'', 1), (''9:00'', 1)]"
proof -
  from hours obtain e1 e2 e3 where events: "events = [e1, e2, e3]"
    and h1: "getHours h (timestamp e1) = Some 9"
    and h2: "getHours h (timestamp e2) = Some 10"
    and h3: "getHours h (timestamp e3) = Some 2"
    by (auto simp: map_eq_Cons_conv)
  have l1: "hour_label h (timestamp e1) = ''9:00''"
    using hour_label_digits[OF h1] by (simp add: digit_chars)
  have l2: "hour_label h (timestamp e2) = ''10:00''"
    using hour_label_digits[OF h2] by (simp add: digit_chars)
  have l3: "hour_label h (timestamp e3) = ''2:00''"
    using hour_label_digits[OF h3] by (simp add: digit_chars)
  have grouped: "hourMap h events = [(''9:00'', 1), (''10:00'', 1), (''2:00'', 1)]"
    by (simp add: hourMap_def events l1 l2 l3 bump_def)
  from w12 w29 have w19: "weight h CHR ''1'' < weight h CHR ''9''" by simp
  from w12 w29 w19 show ?thesis
    by (simp add: computeStats_fields grouped by_hour_def)
qed

subsection \<open>A ranking by count\<close>

lemma ranking_stable:
  "sorted_wrt (ranks_before (first_pos sel es))
     (take n (array_sort by_count_desc (tally_by sel es)))"
proof -
  have "sorted_wrt (\<lambda>a b. first_pos sel es (fst a) < first_pos sel es (fst b)) (tally_by sel es)"
    using tally_by_order[of sel es] by (simp add: sorted_wrt_map)
  then have "sorted_wrt (ranks_before (first_pos sel es))
      (array_sort by_count_desc (tally_by sel es))"
    by (rule stable_array_sort)
  then show ?thesis by (rule sorted_wrt_take)
qed

lemma ranking_nonincreasing:
  "nonincreasing_counts (take n (array_sort by_count_desc m))"
  unfolding nonincreasing_counts_def
  by (rule sorted_wrt_take) (rule counts_array_sort)

lemma tally_by_positive: "positive_counts (tally_by sel es)"
  unfolding positive_counts_def list_all_iff
proof
  fix x assume "x \<in> set (tally_by sel es)"
  then have "(fst x, snd x) \<in> set (tally_by sel es)" by simp
  then show "0 < snd x" by (rule tally_by_entry)
qed

lemma positive_counts_subset:
  "positive_counts m \<Longrightarrow> set xs \<subseteq> set m \<Longrightarrow> positive_counts xs"
  by (auto simp: positive_counts_def list_all_iff)

lemma ranking_positive:
  "positive_counts (take n (array_sort cmp (tally_by sel es)))"
proof (rule positive_counts_subset[OF tally_by_positive[of sel es]])
  show "set (take n (array_sort cmp (tally_by sel es))) \<subseteq> set (tally_by sel es)"
    using set_take_subset[of n "array_sort cmp (tally_by sel es)"]
    by (simp add: set_array_sort)
qed

lemma sorted_positive:
  "positive_counts (array_sort cmp (tally_by sel es))"
  by (rule positive_counts_subset[OF tally_by_positive[of sel es]]) (simp add: set_array_sort)

subsection \<open>The query carries no event type\<close>

lemma build_query_ignores_eventType:
  "build_query (Some (f\<lparr> eventType := t \<rparr>)) = build_query (Some f)"
  by (simp add: build_query_def)

subsection \<open>Events that a loop skips\<close>

lemma tally_by_filter:
  assumes "\<And>e. sel e \<noteq> None \<Longrightarrow> P e"
  shows "tally_by sel (filter P es) = tally_by sel es"
proof (induction es rule: rev_induct)
  case Nil
  show ?case by simp
next
  case (snoc e es)
  show ?case
  proof (cases "P e")
    case True
    with snoc show ?thesis by (simp add: tally_by_snoc split: option.splits)
  next
    case False
    with assms have "sel e = None" by blast
    with False snoc show ?thesis by (simp add: tally_by_snoc)
  qed
qed

lemma tally_by_map: "tally_by sel (map f es) = tally_by (\<lambda>e. sel (f e)) es"
  by (simp add: tally_by_def foldl_map)

lemma user_key_Some: "user_key e = Some u \<longleftrightarrow> user_id e = Some u \<and> u \<noteq> []"
  by (auto simp: user_key_def split: option.splits)

lemma two_users:
  assumes a: "a \<noteq> []" and b: "b \<noteq> []" and ab: "a \<noteq> b"
    and na: "length (filter (\<lambda>e. user_id e = Some a) events) = 5"
    and nb: "length (filter (\<lambda>e. user_id e = Some b) events) = 5"
    and rest: "\<forall>e \<in> set events. user_id e = None \<or> user_id e = Some a \<or> user_id e = Some b"
  shows "length (topUsers (computeStats h events)) = 2"
    and "set (topUsers (computeStats h events)) = {(a, 5), (b, 5)}"
proof -
  let ?m = "tally_by user_key events"
  have occ_a: "occurrences user_key a events = 5"
    using a na by (simp add: occurrences_def user_key_Some)
  have occ_b: "occurrences user_key b events = 5"
    using b nb by (simp add: occurrences_def user_key_Some)
  have "\<exists>e \<in> set events. user_id e = Some a"
    using na by (auto simp: filter_empty_conv dest!: arg_cong[where f = length] intro: ccontr)
  moreover have "\<exists>e \<in> set events. user_id e = Some b"
    using nb by (auto simp: filter_empty_conv dest!: arg_cong[where f = length] intro: ccontr)
  ultimately have keys: "fst ` set ?m = {a, b}"
    using a b rest unfolding keys_tally_by by (auto simp: user_key_Some)
  have "length ?m = card {a, b}"
    using keys by (simp add: length_tally_by keys_tally_by)
  with ab have len: "length ?m = 2" by simp
  have entries: "set ?m = {(a, 5), (b, 5)}"
  proof (intro equalityI subsetI)
    fix x assume x: "x \<in> set ?m"
    then have "(fst x, snd x) \<in> set ?m" by simp
    then have "snd x = occurrences user_key (fst x) events" by (rule tally_by_entry)
    moreover from x keys have "fst x = a \<or> fst x = b" by blast
    ultimately have "x = (a, 5) \<or> x = (b, 5)"
      using occ_a occ_b by (cases x) auto
    then show "x \<in> {(a, 5), (b, 5)}" by simp
  next
    fix x :: "string \<times> nat" assume "x \<in> {(a, 5), (b, 5)}"
    then have k: "fst x \<in> fst ` set ?m" and c: "snd x = occurrences user_key (fst x) events"
      using keys occ_a occ_b by auto
    from k obtain c' where in_m: "(fst x, c') \<in> set ?m" by auto
    then have "c' = occurrences user_key (fst x) events" by (rule tally_by_entry)
    with c in_m show "x \<in> set ?m" by (cases x) simp
  qed
  have top: "topUsers (computeStats h events) = array_sort by_count_desc ?m"
    by (simp add: computeStats_fields userMap_tally length_array_sort len)
  show "length (topUsers (computeStats h events)) = 2"
    by (simp add: top length_array_sort len)
  show "set (topUsers (computeStats h events)) = {(a, 5), (b, 5)}"
    by (simp add: top set_array_sort entries)
qed

subsection \<open>Falsy fields\<close>

lemma drop_falsy_other: "k \<noteq> key \<Longrightarrow> drop_falsy key obj k = obj k"
  by (simp add: drop_falsy_def split: option.splits)

lemma drop_falsy_same:
  "drop_falsy key obj key =
     (case obj key of Some v \<Rightarrow> if truthy v then Some v else None | None \<Rightarrow> None)"
  by (simp add: drop_falsy_def split: option.splits)

lemma selecting_keys_differ:
  "''code'' \<noteq> ''brand''" "''code'' \<noteq> ''errorCode''" "''brand'' \<noteq> ''errorCode''"
  "''brand'' \<noteq> ''code''" "''errorCode'' \<noteq> ''code''" "''errorCode'' \<noteq> ''brand''"
  by simp_all

lemma dropped_lookup:
  "drop_falsy ''code'' (drop_falsy ''brand'' (drop_falsy ''errorCode'' obj)) ''code'' =
     (case obj ''code'' of Some v \<Rightarrow> if truthy v then Some v else None | None \<Rightarrow> None)"
  "drop_falsy ''code'' (drop_falsy ''brand'' (drop_falsy ''errorCode'' obj)) ''brand'' =
     (case obj ''brand'' of Some v \<Rightarrow> if truthy v then Some v else None | None \<Rightarrow> None)"
  "drop_falsy ''code'' (drop_falsy ''brand'' (drop_falsy ''errorCode'' obj)) ''errorCode'' =
     (case obj ''errorCode'' of Some v \<Rightarrow> if truthy v then Some v else None | None \<Rightarrow> None)"
  by (simp_all only: drop_falsy_same drop_falsy_other[OF selecting_keys_differ(1)]
      drop_falsy_other[OF selecting_keys_differ(2)] drop_falsy_other[OF selecting_keys_differ(3)]
      drop_falsy_other[OF selecting_keys_differ(4)] drop_falsy_other[OF selecting_keys_differ(5)]
      drop_falsy_other[OF selecting_keys_differ(6)])

lemma meta_of_without_falsy:
  "meta (without_falsy e) =
     map_option
       (\<lambda>obj. drop_falsy ''code'' (drop_falsy ''brand'' (drop_falsy ''errorCode'' obj)))
       (meta e)"
  by (simp add: without_falsy_def)

lemma meta_get_without_falsy:
  assumes "key = ''code'' \<or> key = ''brand'' \<or> key = ''errorCode''"
  shows "meta_get (without_falsy e) key =
           (if truthy (meta_get e key) then meta_get e key else JUndefined)"
proof (cases "meta e")
  case None
  then show ?thesis by (simp add: meta_get_def meta_of_without_falsy)
next
  case (Some obj)
  have "(case drop_falsy ''code'' (drop_falsy ''brand'' (drop_falsy ''errorCode'' obj)) key of
           None \<Rightarrow> JUndefined | Some v \<Rightarrow> v) =
        (if truthy (case obj key of None \<Rightarrow> JUndefined | Some v \<Rightarrow> v)
         then (case obj key of None \<Rightarrow> JUndefined | Some v \<Rightarrow> v) else JUndefined)"
    using assms
  proof (elim disjE)
    assume "key = ''code''"
    then show ?thesis
      by (cases "obj ''code''") (simp_all add: dropped_lookup)
  next
    assume "key = ''brand''"
    then show ?thesis
      by (cases "obj ''brand''") (simp_all add: dropped_lookup)
  next
    assume "key = ''errorCode''"
    then show ?thesis
      by (cases "obj ''errorCode''") (simp_all add: dropped_lookup)
  qed
  with Some show ?thesis
    by (simp only: meta_get_def meta_of_without_falsy option.case option.map)
qed

lemma keys_without_falsy:
  "path_key (without_falsy e) = path_key e"
  "user_key (without_falsy e) = user_key e"
  "code_key (without_falsy e) = code_key e"
  "brand_key (without_falsy e) = brand_key e"
  "error_key (without_falsy e) = error_key e"
  "hour_key h (without_falsy e) = hour_key h e"
proof -
  show "path_key (without_falsy e) = path_key e"
    by (simp add: path_key_def without_falsy_def split: option.splits)
  show "user_key (without_falsy e) = user_key e"
    by (simp add: user_key_def without_falsy_def split: option.splits)
  have "event_type (without_falsy e) = event_type e"
    by (simp add: without_falsy_def)
  then show "code_key (without_falsy e) = code_key e"
    by (simp add: code_key_def meta_get_without_falsy)
  show "brand_key (without_falsy e) = brand_key e"
    by (simp add: brand_key_def meta_get_without_falsy)
  show "error_key (without_falsy e) = error_key e"
    by (simp add: error_key_def meta_get_without_falsy)
  show "hour_key h (without_falsy e) = hour_key h e"
    by (simp add: hour_key_def without_falsy_def)
qed

lemma maps_without_falsy:
  "pageViewMap (map without_falsy events) = pageViewMap events"
  "searchMap (map without_falsy events) = searchMap events"
  "brandMap (map without_falsy events) = brandMap events"
  "userMap (map without_falsy events) = userMap events"
  "errorMap (map without_falsy events) = errorMap events"
  "hourMap h (map without_falsy events) = hourMap h events"
  by (simp_all add: pageViewMap_tally searchMap_tally brandMap_tally userMap_tally
      errorMap_tally hourMap_tally tally_by_map keys_without_falsy)

lemma ranking_keys:
  "set (take n (array_sort cmp (tally_by sel es))) \<subseteq> set (tally_by sel es)"
  using set_take_subset[of n "array_sort cmp (tally_by sel es)"]
  by (simp add: set_array_sort)

lemma ranking_truthy_keys:
  assumes "\<And>e k. sel e = Some k \<Longrightarrow> truthy k"
  shows "truthy_keys (take n (array_sort cmp (tally_by sel es)))"
  unfolding truthy_keys_def list_all_iff
proof
  fix x assume "x \<in> set (take n (array_sort cmp (tally_by sel es)))"
  with ranking_keys[of n cmp sel es] have "fst x \<in> fst ` set (tally_by sel es)" by blast
  then show "truthy (fst x)"
    unfolding keys_tally_by using assms by blast
qed

lemma ranking_nonempty_keys:
  assumes "\<And>e k. sel e = Some k \<Longrightarrow> k \<noteq> []"
  shows "nonempty_keys (take n (array_sort cmp (tally_by sel es)))"
  unfolding nonempty_keys_def list_all_iff
proof
  fix x assume "x \<in> set (take n (array_sort cmp (tally_by sel es)))"
  with ranking_keys[of n cmp sel es] have "fst x \<in> fst ` set (tally_by sel es)" by blast
  then show "fst x \<noteq> []"
    unfolding keys_tally_by using assms by blast
qed

section \<open>The claims\<close>

text \<open>
  C1. The claim is that a supplied \<open>eventType\<close> restricts the events the aggregation
  is computed over. The code accepts the filter and never reads it: the query is built
  from the two dates alone, so on every store the result with an \<open>eventType\<close> is the
  result without one; and when the store holds a single page view, the query for
  search events only still reports it in \<open>totalPageViews\<close>, \<open>pageViews\<close> and
  \<open>activityByHour\<close>.
\<close>

theorem eventType_filter_never_applied:
  "getAnalyticsStats h store (Some (f\<lparr> eventType := Some t \<rparr>)) =
     getAnalyticsStats h store (Some (f\<lparr> eventType := None \<rparr>)) \<and>
   getAnalyticsStats utc_host
       (store_of [page_view_event ''/home'' ''2024-05-01T13:00:00.000Z'']) (Some search_only) =
     \<lparr> totalPageViews = 1, totalSearches = 0, pageViews = [(''/home'', 1)],
       topSearchedCodes = [], topBrands = [], topUsers = [], errorCodeFrequency = [],
       activityByHour = [(''13:00'', 1)] \<rparr>"
proof
  show "getAnalyticsStats h store (Some (f\<lparr> eventType := Some t \<rparr>)) =
     getAnalyticsStats h store (Some (f\<lparr> eventType := None \<rparr>))"
    by (simp add: getAnalyticsStats_def build_query_ignores_eventType)
  show "getAnalyticsStats utc_host
       (store_of [page_view_event ''/home'' ''2024-05-01T13:00:00.000Z'']) (Some search_only) =
     \<lparr> totalPageViews = 1, totalSearches = 0, pageViews = [(''/home'', 1)],
       topSearchedCodes = [], topBrands = [], topUsers = [], errorCodeFrequency = [],
       activityByHour = [(''13:00'', 1)] \<rparr>"
    by code_simp
qed

text \<open>
  C2. For every input collection, \<open>totalSearches\<close> is the sum of the counts of the
  \<open>topSearchedCodes\<close> list, which is already cut to ten entries; so when the input holds
  eleven search events, each carrying a code of its own that the aggregation selects,
  the list has ten entries and \<open>totalSearches\<close> is 10, not 11.
\<close>

theorem totalSearches_sums_truncated_list:
  "totalSearches (computeStats h events) =
     sum_list (map snd (topSearchedCodes (computeStats h events))) \<and>
   (length (filter (\<lambda>e. event_type e = ''search'') events) = 11 \<and>
    (\<forall>e \<in> set events. event_type e = ''search'' \<longrightarrow> truthy (meta_get e ''code'')) \<and>
    distinct (map (\<lambda>e. meta_get e ''code'') (filter (\<lambda>e. event_type e = ''search'') events))
    \<longrightarrow> length (topSearchedCodes (computeStats h events)) = 10 \<and>
        totalSearches (computeStats h events) = 10)"
proof (intro conjI impI)
  show total: "totalSearches (computeStats h events) =
      sum_list (map snd (topSearchedCodes (computeStats h events)))"
    by (simp add: computeStats_fields foldl_counts)
  assume hyp: "length (filter (\<lambda>e. event_type e = ''search'') events) = 11 \<and>
    (\<forall>e \<in> set events. event_type e = ''search'' \<longrightarrow> truthy (meta_get e ''code'')) \<and>
    distinct (map (\<lambda>e. meta_get e ''code'') (filter (\<lambda>e. event_type e = ''search'') events))"
  let ?ss = "filter (\<lambda>e. event_type e = ''search'') events"
  let ?code = "\<lambda>e. meta_get e ''code''"
  let ?m = "tally_by code_key events"
  let ?top = "take 10 (array_sort by_count_desc ?m)"
  have sel: "code_key e = Some k \<longleftrightarrow> event_type e = ''search'' \<and> ?code e = k"
    if "e \<in> set events" for e k
    using that hyp by (auto simp: code_key_def)
  have occ: "occurrences code_key k events \<le> 1" for k
  proof -
    have "filter (\<lambda>e. code_key e = Some k) events =
          filter (\<lambda>e. event_type e = ''search'' \<and> ?code e = k) events"
      by (rule filter_cong) (auto simp: sel)
    also have "\<dots> = filter (\<lambda>e. ?code e = k) ?ss"
      by simp
    finally have "occurrences code_key k events = length (filter (\<lambda>e. ?code e = k) ?ss)"
      by (simp only: occurrences_def)
    also from hyp have "\<dots> \<le> 1"
      by (intro distinct_map_filter_le1) blast
    finally show ?thesis .
  qed
  have ones: "\<forall>x \<in> set ?m. snd x = 1"
  proof
    fix x assume "x \<in> set ?m"
    then have "(fst x, snd x) \<in> set ?m" by simp
    from tally_by_entry[OF this] occ[of "fst x"] show "snd x = 1" by simp
  qed
  have "{k. \<exists>e \<in> set events. code_key e = Some k} = ?code ` set ?ss"
    by (auto simp: sel)
  then have "length ?m = card (set (map ?code ?ss))"
    by (simp add: length_tally_by)
  also have "\<dots> = length (map ?code ?ss)"
    using hyp by (intro distinct_card) simp
  finally have len: "length ?m = 11" using hyp by simp
  have top: "topSearchedCodes (computeStats h events) = ?top"
    by (simp add: computeStats_fields searchMap_tally)
  show ten: "length (topSearchedCodes (computeStats h events)) = 10"
    by (simp add: top length_array_sort len)
  have "\<forall>x \<in> set ?top. snd x = 1"
  proof
    fix x assume "x \<in> set ?top"
    then have "x \<in> set (array_sort by_count_desc ?m)" by (rule in_set_takeD)
    with ones show "snd x = 1" by (simp add: set_array_sort)
  qed
  then have "sum_list (map snd ?top) = length ?top"
    by (rule sum_list_all_ones)
  with total ten top show "totalSearches (computeStats h events) = 10" by simp
qed

theorem totalSearches_sums_truncated_list_witness:
  "length (filter (\<lambda>e. event_type e = ''search'') twelve_events) = 11 \<and>
   list_all (\<lambda>e. event_type e \<noteq> ''search'' \<or> truthy (meta_get e ''code'')) twelve_events \<and>
   distinct (map (\<lambda>e. meta_get e ''code'')
     (filter (\<lambda>e. event_type e = ''search'') twelve_events)) \<and>
   length (topSearchedCodes (computeStats utc_host twelve_events)) = 10 \<and>
   totalSearches (computeStats utc_host twelve_events) = 10"
proof -
  have eleven: "length (filter (\<lambda>e. event_type e = ''search'') twelve_events) = 11"
    by code_simp
  have selected:
    "list_all (\<lambda>e. event_type e \<noteq> ''search'' \<or> truthy (meta_get e ''code'')) twelve_events"
    by code_simp
  have own: "distinct (map (\<lambda>e. meta_get e ''code'')
     (filter (\<lambda>e. event_type e = ''search'') twelve_events))"
    by code_simp
  from selected
  have "\<forall>e \<in> set twelve_events. event_type e = ''search'' \<longrightarrow> truthy (meta_get e ''code'')"
    by (auto simp: list_all_iff)
  with totalSearches_sums_truncated_list[of utc_host twelve_events] eleven own
  have "length (topSearchedCodes (computeStats utc_host twelve_events)) = 10 \<and>
        totalSearches (computeStats utc_host twelve_events) = 10"
    by blast
  with eleven selected own show ?thesis by blast
qed

text \<open>
  C3. For every input collection, the keys of \<open>activityByHour\<close> are the formatted local
  hours of the events, each the decimal digits of the hour followed by \<open>:00\<close> with no
  zero in front of a single digit; the list is in the lexicographic order of these
  strings under the host's collation, not in the order of the hours as numbers: for
  events at the local hours 9, 10, 2 the entries come out as 10:00, 2:00, 9:00 (on every
  host whose collation puts the digit 1 before 2 and 2 before 9).
\<close>

theorem activityByHour_sorted_by_label:
  "fst ` set (activityByHour (computeStats h events)) =
     (\<lambda>e. hour_label h (timestamp e)) ` set events \<and>
   (getHours h ts = Some n \<and> n < 100 \<longrightarrow>
      hour_label h ts =
        (if n < 10 then [digit_char n] else [digit_char (n div 10), digit_char (n mod 10)])
        @ '':00'') \<and>
   sorted_wrt (\<lambda>a b. lexordp_eq (map (weight h) (fst a)) (map (weight h) (fst b)))
     (activityByHour (computeStats h events)) \<and>
   (map (\<lambda>e. getHours h (timestamp e)) events = [Some 9, Some 10, Some 2] \<and>
    weight h CHR ''1'' < weight h CHR ''2'' \<and> weight h CHR ''2'' < weight h CHR ''9'' \<longrightarrow>
      activityByHour (computeStats h events) = [(''10:00'', 1), (''2:00'', 1), (''9:00'', 1)])"
proof (intro conjI impI)
  show "fst ` set (activityByHour (computeStats h events)) =
     (\<lambda>e. hour_label h (timestamp e)) ` set events"
    by (rule keys_activityByHour)
  show "sorted_wrt (\<lambda>a b. lexordp_eq (map (weight h) (fst a)) (map (weight h) (fst b)))
     (activityByHour (computeStats h events))"
    by (simp add: computeStats_fields hours_array_sort)
next
  assume "getHours h ts = Some n \<and> n < 100"
  then show "hour_label h ts =
        (if n < 10 then [digit_char n] else [digit_char (n div 10), digit_char (n mod 10)])
        @ '':00''"
    by (simp add: hour_label_digits)
next
  assume "map (\<lambda>e. getHours h (timestamp e)) events = [Some 9, Some 10, Some 2] \<and>
    weight h CHR ''1'' < weight h CHR ''2'' \<and> weight h CHR ''2'' < weight h CHR ''9''"
  then show "activityByHour (computeStats h events) =
      [(''10:00'', 1), (''2:00'', 1), (''9:00'', 1)]"
    by (simp add: hours_9_10_2)
qed

theorem activityByHour_sorted_by_label_witness:
  "getHours utc_host ''2024-05-01T09:10:00.000Z'' = Some 9 \<and>
   hour_label utc_host ''2024-05-01T09:10:00.000Z'' = ''9:00'' \<and>
   map (\<lambda>e. getHours utc_host (timestamp e)) three_hours = [Some 9, Some 10, Some 2] \<and>
   weight utc_host CHR ''1'' < weight utc_host CHR ''2'' \<and>
   weight utc_host CHR ''2'' < weight utc_host CHR ''9'' \<and>
   activityByHour (computeStats utc_host three_hours) =
     [(''10:00'', 1), (''2:00'', 1), (''9:00'', 1)]"
proof -
  have nine: "getHours utc_host ''2024-05-01T09:10:00.000Z'' = Some 9"
    by code_simp
  have hours: "map (\<lambda>e. getHours utc_host (timestamp e)) three_hours = [Some 9, Some 10, Some 2]"
    by code_simp
  have w12: "weight utc_host CHR ''1'' < weight utc_host CHR ''2''"
    by code_simp
  have w29: "weight utc_host CHR ''2'' < weight utc_host CHR ''9''"
    by code_simp
  note inst = activityByHour_sorted_by_label
               [of utc_host three_hours "''2024-05-01T09:10:00.000Z''" 9]
  from inst nine have "hour_label utc_host ''2024-05-01T09:10:00.000Z'' = ''9:00''"
    by (simp add: digit_chars)
  moreover from inst hours w12 w29
  have "activityByHour (computeStats utc_host three_hours) =
     [(''10:00'', 1), (''2:00'', 1), (''9:00'', 1)]"
    by blast
  ultimately show ?thesis using nine hours w12 w29 by blast
qed

text \<open>
  C4, as the code has it. The five lists that are ranked by count (\<open>pageViews\<close>,
  \<open>topSearchedCodes\<close>, \<open>topBrands\<close>, \<open>topUsers\<close>, \<open>errorCodeFrequency\<close>) share one
  rule: a larger count comes first, and among keys with equal counts the key discovered
  first in the delivery order of the input comes first. The grouping behind
  \<open>activityByHour\<close> holds its keys in discovery order too, but the list itself is put
  in the order of the hour labels, whatever the counts and the discovery order.
\<close>

theorem count_rankings_break_ties_by_discovery:
  "sorted_wrt (ranks_before (first_pos path_key events)) (pageViews (computeStats h events)) \<and>
   sorted_wrt (ranks_before (first_pos code_key events))
     (topSearchedCodes (computeStats h events)) \<and>
   sorted_wrt (ranks_before (first_pos brand_key events)) (topBrands (computeStats h events)) \<and>
   sorted_wrt (ranks_before (first_pos user_key events)) (topUsers (computeStats h events)) \<and>
   sorted_wrt (ranks_before (first_pos error_key events))
     (errorCodeFrequency (computeStats h events)) \<and>
   sorted_wrt (\<lambda>a b. first_pos (hour_key h) events a < first_pos (hour_key h) events b)
     (map fst (hourMap h events)) \<and>
   sorted_wrt (label_le h) (activityByHour (computeStats h events))"
proof (intro conjI)
  show "sorted_wrt (label_le h) (activityByHour (computeStats h events))"
    using hours_array_sort[of "weight h" "hourMap h events"]
    by (simp add: computeStats_fields label_le_def[abs_def])
qed (simp_all add: computeStats_fields pageViewMap_tally searchMap_tally brandMap_tally
      userMap_tally errorMap_tally hourMap_tally ranking_stable tally_by_order)

text \<open>
  C4, as the claim states it, fails for \<open>activityByHour\<close>: of three hours seen once
  each, in the order 9, 10, 2, the one discovered first comes out last.
\<close>

theorem activityByHour_ties_ignore_discovery:
  "activityByHour (computeStats utc_host three_hours) =
     [(''10:00'', 1), (''2:00'', 1), (''9:00'', 1)] \<and>
   first_pos (hour_key utc_host) three_hours ''9:00'' = 0 \<and>
   first_pos (hour_key utc_host) three_hours ''10:00'' = 1 \<and>
   first_pos (hour_key utc_host) three_hours ''2:00'' = 2 \<and>
   \<not> sorted_wrt (ranks_before (first_pos (hour_key utc_host) three_hours))
       (activityByHour (computeStats utc_host three_hours))"
  by code_simp

text \<open>
  C5. For every input collection, \<open>totalPageViews\<close> is the exact number of events in
  the input, whatever their event types: it is the length of the collection the
  aggregation receives, and so the length of the rows the store delivered.
\<close>

theorem totalPageViews_is_input_size:
  "totalPageViews (computeStats h events) = length events \<and>
   (store (build_query fs) = Resolved (Some events) None \<longrightarrow>
      totalPageViews (getAnalyticsStats h store fs) = length events)"
  by (simp add: computeStats_fields getAnalyticsStats_def)

theorem totalPageViews_is_input_size_witness:
  "store_of twelve_events (build_query None) = Resolved (Some twelve_events) None \<and>
   length (filter (\<lambda>e. event_type e = ''page_view'') twelve_events) = 1 \<and>
   totalPageViews (getAnalyticsStats utc_host (store_of twelve_events) None) = 12"
proof -
  have fetched: "store_of twelve_events (build_query None) = Resolved (Some twelve_events) None"
    by (simp add: store_of_def)
  have size: "length twelve_events = 12"
    by (simp add: twelve_events_def eleven_codes_def)
  have views: "length (filter (\<lambda>e. event_type e = ''page_view'') twelve_events) = 1"
    by code_simp
  from totalPageViews_is_input_size[of utc_host twelve_events "store_of twelve_events" None]
    fetched size views
  show ?thesis by simp
qed

text \<open>
  C6. For every input collection, \<open>pageViews\<close>, \<open>topSearchedCodes\<close>, \<open>topBrands\<close> and
  \<open>topUsers\<close> have at most 10 entries and \<open>errorCodeFrequency\<close> has at most 15;
  \<open>activityByHour\<close> is not cut: it has one entry for each distinct formatted hour of
  the input.
\<close>

theorem ranked_lists_within_caps:
  "length (pageViews (computeStats h events)) \<le> 10 \<and>
   length (topSearchedCodes (computeStats h events)) \<le> 10 \<and>
   length (topBrands (computeStats h events)) \<le> 10 \<and>
   length (topUsers (computeStats h events)) \<le> 10 \<and>
   length (errorCodeFrequency (computeStats h events)) \<le> 15 \<and>
   length (activityByHour (computeStats h events)) =
     card ((\<lambda>e. hour_label h (timestamp e)) ` set events)"
proof -
  have "{k. \<exists>e \<in> set events. hour_key h e = Some k} =
        (\<lambda>e. hour_label h (timestamp e)) ` set events"
    by (auto simp: hour_key_def)
  then have "length (activityByHour (computeStats h events)) =
             card ((\<lambda>e. hour_label h (timestamp e)) ` set events)"
    by (simp add: computeStats_fields length_array_sort hourMap_tally length_tally_by)
  then show ?thesis by (simp add: computeStats_fields)
qed

text \<open>
  C7, as the code has it. For every input collection every count in each of the six
  lists is greater than zero, and in the five lists ranked by count the counts do not
  increase from the first entry to the last. (\<open>activityByHour\<close> is in the order of its
  labels; nothing is said of the order of its counts.)
\<close>

theorem counts_positive_and_rankings_nonincreasing:
  "positive_counts (pageViews (computeStats h events)) \<and>
   positive_counts (topSearchedCodes (computeStats h events)) \<and>
   positive_counts (topBrands (computeStats h events)) \<and>
   positive_counts (topUsers (computeStats h events)) \<and>
   positive_counts (errorCodeFrequency (computeStats h events)) \<and>
   positive_counts (activityByHour (computeStats h events)) \<and>
   nonincreasing_counts (pageViews (computeStats h events)) \<and>
   nonincreasing_counts (topSearchedCodes (computeStats h events)) \<and>
   nonincreasing_counts (topBrands (computeStats h events)) \<and>
   nonincreasing_counts (topUsers (computeStats h events)) \<and>
   nonincreasing_counts (errorCodeFrequency (computeStats h events))"
  by (simp add: computeStats_fields pageViewMap_tally searchMap_tally brandMap_tally
      userMap_tally errorMap_tally hourMap_tally ranking_positive sorted_positive
      ranking_nonincreasing)

text \<open>
  C7, as the claim states it, fails for \<open>activityByHour\<close>: one event at hour 10 and
  two at hour 9 give the counts 1, 2 in that order.
\<close>

theorem activityByHour_counts_may_increase:
  "activityByHour (computeStats utc_host busy_nine) = [(''10:00'', 1), (''9:00'', 2)] \<and>
   \<not> nonincreasing_counts (activityByHour (computeStats utc_host busy_nine))"
  by code_simp

text \<open>
  C8. For every input collection, the events whose \<open>userId\<close> is null contribute nothing
  to \<open>topUsers\<close>: the list is the one computed from the other events alone, and none
  of its keys is empty. When two distinct users each appear 5 times and every other
  event (a hundred of them, or any number) has a null \<open>userId\<close>, \<open>topUsers\<close> has exactly
  the two entries of the two users, each with count 5.
\<close>

theorem null_users_left_out_of_topUsers:
  "topUsers (computeStats h events) =
     topUsers (computeStats h (filter (\<lambda>e. user_id e \<noteq> None) events)) \<and>
   nonempty_keys (topUsers (computeStats h events)) \<and>
   (a \<noteq> [] \<and> b \<noteq> [] \<and> a \<noteq> b \<and>
    length (filter (\<lambda>e. user_id e = Some a) events) = 5 \<and>
    length (filter (\<lambda>e. user_id e = Some b) events) = 5 \<and>
    (\<forall>e \<in> set events. user_id e = None \<or> user_id e = Some a \<or> user_id e = Some b)
    \<longrightarrow> length (topUsers (computeStats h events)) = 2 \<and>
        set (topUsers (computeStats h events)) = {(a, 5), (b, 5)})"
proof (intro conjI impI)
  have "tally_by user_key (filter (\<lambda>e. user_id e \<noteq> None) events) = tally_by user_key events"
    by (rule tally_by_filter) (auto simp: user_key_def split: option.splits)
  then show "topUsers (computeStats h events) =
     topUsers (computeStats h (filter (\<lambda>e. user_id e \<noteq> None) events))"
    by (simp add: computeStats_fields userMap_tally)
  have "fst x \<noteq> []" if "x \<in> set (topUsers (computeStats h events))" for x
  proof -
    from that have "x \<in> set (array_sort by_count_desc (tally_by user_key events))"
      by (auto simp: computeStats_fields userMap_tally dest: in_set_takeD)
    then have "fst x \<in> fst ` set (tally_by user_key events)"
      by (simp add: set_array_sort)
    then show ?thesis
      unfolding keys_tally_by by (auto simp: user_key_Some)
  qed
  then show "nonempty_keys (topUsers (computeStats h events))"
    by (simp add: nonempty_keys_def list_all_iff)
next
  assume hyp: "a \<noteq> [] \<and> b \<noteq> [] \<and> a \<noteq> b \<and>
    length (filter (\<lambda>e. user_id e = Some a) events) = 5 \<and>
    length (filter (\<lambda>e. user_id e = Some b) events) = 5 \<and>
    (\<forall>e \<in> set events. user_id e = None \<or> user_id e = Some a \<or> user_id e = Some b)"
  then show "length (topUsers (computeStats h events)) = 2"
    by (intro two_users(1)[of a b]) simp_all
  from hyp show "set (topUsers (computeStats h events)) = {(a, 5), (b, 5)}"
    by (intro two_users(2)) simp_all
qed

theorem null_users_left_out_of_topUsers_witness:
  "length (filter (\<lambda>e. user_id e = Some ''u1'') crowd) = 5 \<and>
   length (filter (\<lambda>e. user_id e = Some ''u2'') crowd) = 5 \<and>
   length (filter (\<lambda>e. user_id e = None) crowd) = 100 \<and>
   length crowd = 110 \<and>
   length (topUsers (computeStats utc_host crowd)) = 2 \<and>
   set (topUsers (computeStats utc_host crowd)) = {(''u1'', 5), (''u2'', 5)}"
proof -
  have n1: "length (filter (\<lambda>e. user_id e = Some ''u1'') crowd) = 5"
    by (simp add: crowd_def user_event_def anonymous_event_def)
  have n2: "length (filter (\<lambda>e. user_id e = Some ''u2'') crowd) = 5"
    by (simp add: crowd_def user_event_def anonymous_event_def)
  have n0: "length (filter (\<lambda>e. user_id e = None) crowd) = 100"
    by (simp add: crowd_def user_event_def anonymous_event_def)
  have size: "length crowd = 110"
    by (simp add: crowd_def)
  have rest: "\<forall>e \<in> set crowd.
      user_id e = None \<or> user_id e = Some ''u1'' \<or> user_id e = Some ''u2''"
    by (auto simp: crowd_def user_event_def anonymous_event_def)
  have names: "''u1'' \<noteq> [] \<and> ''u2'' \<noteq> [] \<and> ''u1'' \<noteq> ''u2''"
    by simp
  from null_users_left_out_of_topUsers[of utc_host crowd "''u1''" "''u2''"] names n1 n2 rest
  have "length (topUsers (computeStats utc_host crowd)) = 2 \<and>
        set (topUsers (computeStats utc_host crowd)) = {(''u1'', 5), (''u2'', 5)}"
    by blast
  with n1 n2 n0 size show ?thesis by blast
qed

text \<open>
  C9. When the fetch fails, because awaiting the query rejects or because the answer
  carries an error, the stats query returns a result all the same: both totals are
  zero and all six lists are empty, which is also what aggregating the empty collection
  gives.
\<close>

theorem fetch_failure_gives_zeroed_stats:
  "store (build_query fs) = Rejected err \<or> store (build_query fs) = Resolved dat (Some err) \<Longrightarrow>
   getAnalyticsStats h store fs =
     \<lparr> totalPageViews = 0, totalSearches = 0, pageViews = [], topSearchedCodes = [],
       topBrands = [], topUsers = [], errorCodeFrequency = [], activityByHour = [] \<rparr> \<and>
   getAnalyticsStats h store fs = computeStats h []"
  by (auto simp: getAnalyticsStats_def computeStats_Nil zeroStats_def)

theorem fetch_failure_gives_zeroed_stats_witness:
  "failing_store (build_query None) = Resolved None (Some (Failure ''FetchError'')) \<and>
   getAnalyticsStats utc_host failing_store None =
     \<lparr> totalPageViews = 0, totalSearches = 0, pageViews = [], topSearchedCodes = [],
       topBrands = [], topUsers = [], errorCodeFrequency = [], activityByHour = [] \<rparr> \<and>
   getAnalyticsStats utc_host failing_store None = computeStats utc_host []"
proof -
  have failed: "failing_store (build_query None) = Resolved None (Some (Failure ''FetchError''))"
    by (simp add: failing_store_def)
  then have "failing_store (build_query None) = Rejected (Failure ''FetchError'') \<or>
             failing_store (build_query None) = Resolved None (Some (Failure ''FetchError''))"
    by simp
  from fetch_failure_gives_zeroed_stats
         [where store = failing_store and fs = None and dat = None and h = utc_host, OF this]
       failed
  show ?thesis by blast
qed

text \<open>
  C10. The aggregation tests each selecting field for truthiness, not for presence: no
  list has a falsy key (no empty path in \<open>pageViews\<close>, no empty user in \<open>topUsers\<close>,
  no empty string, 0 or \<open>false\<close> in \<open>topSearchedCodes\<close>, \<open>topBrands\<close> or
  \<open>errorCodeFrequency\<close>), and the whole result is exactly the one computed from the
  events in which every selecting field that is present but falsy has been made absent.
\<close>

theorem falsy_fields_count_as_absent:
  "computeStats h (map without_falsy events) = computeStats h events \<and>
   nonempty_keys (pageViews (computeStats h events)) \<and>
   nonempty_keys (topUsers (computeStats h events)) \<and>
   truthy_keys (topSearchedCodes (computeStats h events)) \<and>
   truthy_keys (topBrands (computeStats h events)) \<and>
   truthy_keys (errorCodeFrequency (computeStats h events))"
proof (intro conjI)
  show "computeStats h (map without_falsy events) = computeStats h events"
    by (simp add: computeStats_def maps_without_falsy)
  show "nonempty_keys (pageViews (computeStats h events))"
    unfolding computeStats_fields pageViewMap_tally
    by (rule ranking_nonempty_keys) (auto simp: path_key_def split: option.splits if_splits)
  show "nonempty_keys (topUsers (computeStats h events))"
    unfolding computeStats_fields userMap_tally
    by (rule ranking_nonempty_keys) (auto simp: user_key_def split: option.splits if_splits)
  show "truthy_keys (topSearchedCodes (computeStats h events))"
    unfolding computeStats_fields searchMap_tally
    by (rule ranking_truthy_keys) (auto simp: code_key_def split: if_splits)
  show "truthy_keys (topBrands (computeStats h events))"
    unfolding computeStats_fields brandMap_tally
    by (rule ranking_truthy_keys) (auto simp: brand_key_def split: if_splits)
  show "truthy_keys (errorCodeFrequency (computeStats h events))"
    unfolding computeStats_fields errorMap_tally
    by (rule ranking_truthy_keys) (auto simp: error_key_def split: if_splits)
qed

theorem falsy_fields_count_as_absent_witness:
  "map path falsy_events = [Some [], Some [], Some []] \<and>
   map (\<lambda>e. meta_get e ''code'') falsy_events = [JStr [], JNum 0, JBool False] \<and>
   map path (map without_falsy falsy_events) = [None, None, None] \<and>
   map (\<lambda>e. meta_get e ''code'') (map without_falsy falsy_events) =
     [JUndefined, JUndefined, JUndefined] \<and>
   computeStats utc_host (map without_falsy falsy_events) = computeStats utc_host falsy_events \<and>
   computeStats utc_host falsy_events =
     \<lparr> totalPageViews = 3, totalSearches = 0, pageViews = [], topSearchedCodes = [],
       topBrands = [], topUsers = [], errorCodeFrequency = [],
       activityByHour = [(''8:00'', 3)] \<rparr>"
proof -
  have present: "map path falsy_events = [Some [], Some [], Some []] \<and>
      map (\<lambda>e. meta_get e ''code'') falsy_events = [JStr [], JNum 0, JBool False]"
    by code_simp
  have absent: "map path (map without_falsy falsy_events) = [None, None, None] \<and>
      map (\<lambda>e. meta_get e ''code'') (map without_falsy falsy_events) =
        [JUndefined, JUndefined, JUndefined]"
    by code_simp
  have result: "computeStats utc_host falsy_events =
     \<lparr> totalPageViews = 3, totalSearches = 0, pageViews = [], topSearchedCodes = [],
       topBrands = [], topUsers = [], errorCodeFrequency = [],
       activityByHour = [(''8:00'', 3)] \<rparr>"
    by code_simp
  from falsy_fields_count_as_absent[of utc_host falsy_events] present absent result
  show ?thesis by blast
qed

end
